theory Spec2Isabelle
  imports Main
begin

section \<open>Python string operations used by the model client\<close>

text \<open>
  Python strings are modelled as \<^typ>\<open>string\<close> (lists of characters, a character
  being a code point below 256). The operations below are the ones
  \<^verbatim>\<open>phone_agent/model/client.py\<close> and \<^verbatim>\<open>phone_agent/asr.py\<close> apply to them:
  \<^verbatim>\<open>startswith\<close>, \<^verbatim>\<open>in\<close>, \<^verbatim>\<open>split(sep, 1)\<close>, \<^verbatim>\<open>strip()\<close>,
  \<^verbatim>\<open>replace(old, new)\<close> and the slice \<^verbatim>\<open>s[-n:]\<close>.
\<close>

fun startswith :: "string \<Rightarrow> string \<Rightarrow> bool" where
  "startswith s [] = True"
| "startswith [] (p # ps) = False"
| "startswith (c # cs) (p # ps) = (c = p \<and> startswith cs ps)"

text \<open>\<^verbatim>\<open>s.find(sub)\<close>: the lowest offset at which \<open>sub\<close> occurs, if any.\<close>

fun py_find :: "string \<Rightarrow> string \<Rightarrow> nat option" where
  "py_find [] sub = (if sub = [] then Some 0 else None)"
| "py_find (c # cs) sub =
     (if startswith (c # cs) sub then Some 0 else map_option Suc (py_find cs sub))"

text \<open>\<^verbatim>\<open>sub in s\<close>\<close>

definition contains :: "string \<Rightarrow> string \<Rightarrow> bool" where
  "contains s sub = (py_find s sub \<noteq> None)"

text \<open>\<^verbatim>\<open>s.split(sep, 1)\<close>: the list of one or two pieces.\<close>

definition split1 :: "string \<Rightarrow> string \<Rightarrow> string list" where
  "split1 s sep =
     (case py_find s sep of
        None \<Rightarrow> [s]
      | Some i \<Rightarrow> [take i s, drop (i + length sep) s])"

text \<open>
  \<^verbatim>\<open>str.isspace\<close> on the code points below 256: tab to carriage return, the four
  separators 0x1C to 0x1F, space, NEL (0x85) and the no-break space (0xA0).
\<close>

definition is_space :: "char \<Rightarrow> bool" where
  "is_space c = ((of_char c :: nat) \<in> {9, 10, 11, 12, 13, 28, 29, 30, 31, 32, 133, 160})"

definition lstrip :: "string \<Rightarrow> string" where
  "lstrip s = dropWhile is_space s"

definition rstrip :: "string \<Rightarrow> string" where
  "rstrip s = rev (dropWhile is_space (rev s))"

definition strip :: "string \<Rightarrow> string" where
  "strip s = rstrip (lstrip s)"

text \<open>
  \<^verbatim>\<open>s.replace(old, new)\<close> for a non-empty \<open>old\<close>: the occurrences are found from
  left to right and do not overlap. The first argument counts the characters of a
  matched occurrence that are still to be skipped.
\<close>

fun replace_from :: "nat \<Rightarrow> string \<Rightarrow> string \<Rightarrow> string \<Rightarrow> string" where
  "replace_from k old new [] = []"
| "replace_from (Suc k) old new (c # cs) = replace_from k old new cs"
| "replace_from 0 old new (c # cs) =
     (if startswith (c # cs) old then new @ replace_from (length old - 1) old new cs
      else c # replace_from 0 old new cs)"

definition replace :: "string \<Rightarrow> string \<Rightarrow> string \<Rightarrow> string" where
  "replace s old new = replace_from 0 old new s"

text \<open>\<^verbatim>\<open>s[-n:]\<close>: the last \<open>n\<close> characters, the whole string when it is shorter.\<close>

definition last_chars :: "string \<Rightarrow> nat \<Rightarrow> string" where
  "last_chars s n = (if n = 0 then s else drop (length s - n) s)"

section \<open>The model client: \<^verbatim>\<open>ModelClient\<close>\<close>

record ModelResponse =
  thinking :: string
  action :: string
  raw_content :: string
  time_to_first_token :: "nat option"
  time_to_thinking_end :: "nat option"
  total_time :: "nat option"

text \<open>
  One element of the completion stream. \<open>choices\<close> holds the \<^verbatim>\<open>delta\<close> of each choice;
  a field of a delta that is absent or \<^verbatim>\<open>None\<close> is \<^const>\<open>None\<close>.
\<close>

record delta =
  reasoning_content :: "string option"
  reasoning :: "string option"
  content :: "string option"

record chunk =
  choices :: "delta list"

text \<open>
  The local variables of \<^verbatim>\<open>request\<close> during the loop over the stream. \<open>v_stdout\<close> is
  the text written by the \<^verbatim>\<open>print\<close> calls of the loop and of the flush after it: the
  live echo of the thinking text. Clock readings \<^verbatim>\<open>time.time() - start_time\<close> are
  natural numbers of ticks, supplied with every chunk.
\<close>

record locals =
  v_raw_content :: string
  v_raw_reasoning :: string
  v_buffer :: string
  v_in_action_phase :: bool
  v_first_token_received :: bool
  v_time_to_first_token :: "nat option"
  v_time_to_thinking_end :: "nat option"
  v_stdout :: string

definition action_markers :: "string list" where
  "action_markers = [''finish(message='', ''do(action='']"

definition init_locals :: locals where
  "init_locals =
     \<lparr> v_raw_content = [], v_raw_reasoning = [], v_buffer = [],
       v_in_action_phase = False, v_first_token_received = False,
       v_time_to_first_token = None, v_time_to_thinking_end = None,
       v_stdout = [] \<rparr>"

text \<open>\<^verbatim>\<open>a or b\<close> on two optional strings: \<open>a\<close> when it is truthy, else \<open>b\<close>.\<close>

definition py_or :: "string option \<Rightarrow> string option \<Rightarrow> string option" where
  "py_or a b = (case a of Some (x # xs) \<Rightarrow> a | _ \<Rightarrow> b)"

definition truthy :: "string option \<Rightarrow> bool" where
  "truthy a = (case a of Some (x # xs) \<Rightarrow> True | _ \<Rightarrow> False)"

definition mark_first_token :: "nat \<Rightarrow> locals \<Rightarrow> locals" where
  "mark_first_token now s =
     (if \<not> v_first_token_received s
      then s\<lparr> v_time_to_first_token := Some now, v_first_token_received := True \<rparr>
      else s)"

text \<open>Step 1 of the loop body: the reasoning field of the delta.\<close>

definition handle_reasoning :: "nat \<Rightarrow> delta \<Rightarrow> locals \<Rightarrow> locals" where
  "handle_reasoning now d s =
     (let r_piece = py_or (reasoning_content d) (reasoning d) in
      if truthy r_piece then
        (let s1 = mark_first_token now s in
         s1\<lparr> v_raw_reasoning := v_raw_reasoning s1 @ the r_piece,
             v_stdout := v_stdout s1 @ the r_piece \<rparr>)
      else s)"

text \<open>The first marker, in the order of \<open>action_markers\<close>, that occurs in the buffer.\<close>

definition first_marker_in :: "string \<Rightarrow> string option" where
  "first_marker_in buf = List.find (\<lambda>marker. contains buf marker) action_markers"

definition is_p :: "string \<Rightarrow> bool" where
  "is_p buf = list_ex (\<lambda>marker. startswith marker (last_chars buf (length marker))) action_markers"

text \<open>Step 2 of the loop body: the content field of the delta.\<close>

definition handle_content :: "nat \<Rightarrow> delta \<Rightarrow> locals \<Rightarrow> locals" where
  "handle_content now d s =
     (case content d of
        None \<Rightarrow> s
      | Some c_piece \<Rightarrow>
          (let s1 = mark_first_token now s;
               s2 = s1\<lparr> v_raw_content := v_raw_content s1 @ c_piece \<rparr> in
           if v_in_action_phase s2 then s2
           else
             (let s3 = s2\<lparr> v_buffer := v_buffer s2 @ c_piece \<rparr> in
              case first_marker_in (v_buffer s3) of
                Some marker \<Rightarrow>
                  (let thinking_part = split1 (v_buffer s3) marker ! 0 in
                   s3\<lparr> v_stdout := v_stdout s3
                          @ (if strip thinking_part \<noteq> [] then thinking_part else [])
                          @ [CHR 0x0A],
                       v_in_action_phase := True,
                       v_time_to_thinking_end := Some now \<rparr>)
              | None \<Rightarrow>
                  if \<not> is_p (v_buffer s3)
                  then s3\<lparr> v_stdout := v_stdout s3 @ v_buffer s3, v_buffer := [] \<rparr>
                  else s3)))"

definition process_chunk :: "locals \<Rightarrow> nat \<times> chunk \<Rightarrow> locals" where
  "process_chunk s tc =
     (case choices (snd tc) of
        [] \<Rightarrow> s
      | d # ds \<Rightarrow> handle_content (fst tc) d (handle_reasoning (fst tc) d s))"

text \<open>The flush after the loop.\<close>

definition final_flush :: "locals \<Rightarrow> locals" where
  "final_flush s =
     (if v_buffer s \<noteq> [] \<and> \<not> v_in_action_phase s
      then s\<lparr> v_stdout := v_stdout s @ v_buffer s \<rparr> else s)"

definition run_stream :: "(nat \<times> chunk) list \<Rightarrow> locals" where
  "run_stream stream = final_flush (foldl process_chunk init_locals stream)"

definition parse_response :: "string \<Rightarrow> string \<times> string" where
  "parse_response c =
     (if contains c ''finish(message='' then
        (let p = split1 c ''finish(message='' in (strip (p ! 0), ''finish(message='' @ p ! 1))
      else if contains c ''do(action='' then
        (let p = split1 c ''do(action='' in (strip (p ! 0), ''do(action='' @ p ! 1))
      else if contains c ''<answer>'' then
        (let p = split1 c ''<answer>'';
             t = strip (replace (replace (p ! 0) ''<think>'' []) ''</think>'' []);
             a = strip (replace (p ! 1) ''</answer>'' [])
         in (t, a))
      else ([], c))"

text \<open>
  The errors \<^verbatim>\<open>request\<close> can raise on a stream of well-typed chunks: formatting
  \<^verbatim>\<open>time_to_first_token\<close> with \<^verbatim>\<open>:.3f\<close> in the metrics line raises
  \<^verbatim>\<open>TypeError\<close> when it is still \<^verbatim>\<open>None\<close>.
\<close>

datatype py_error = TypeError

text \<open>
  \<^verbatim>\<open>request\<close>, from the stream of chunks (each with the clock reading at which it is
  processed) and the clock reading \<open>elapsed\<close> after the loop.
\<close>

definition request :: "(nat \<times> chunk) list \<Rightarrow> nat \<Rightarrow> py_error + ModelResponse" where
  "request stream elapsed =
     (let s = run_stream stream;
          (thinking0, action0) = parse_response (v_raw_content s);
          thinking1 = (if strip (v_raw_reasoning s) \<noteq> [] then strip (v_raw_reasoning s)
                       else thinking0)
      in case v_time_to_first_token s of
           None \<Rightarrow> Inl TypeError
         | Some ttft \<Rightarrow>
             Inr \<lparr> thinking = thinking1, action = action0, raw_content = v_raw_content s,
                   time_to_first_token = Some ttft,
                   time_to_thinking_end = v_time_to_thinking_end s,
                   total_time = Some elapsed \<rparr>)"

text \<open>A stream that carries only content fragments, one per chunk.\<close>

definition content_chunk :: "string \<Rightarrow> chunk" where
  "content_chunk f =
     \<lparr> choices = [\<lparr> reasoning_content = None, reasoning = None, content = Some f \<rparr>] \<rparr>"

text \<open>
  The fragment a chunk delivers on the reasoning sub-stream and on the content
  sub-stream (the empty string when it delivers none).
\<close>

definition reasoning_piece :: "chunk \<Rightarrow> string" where
  "reasoning_piece c =
     (case choices c of
        [] \<Rightarrow> []
      | d # ds \<Rightarrow> (let r = py_or (reasoning_content d) (reasoning d) in
                   if truthy r then the r else []))"

definition content_piece :: "chunk \<Rightarrow> string" where
  "content_piece c =
     (case choices c of
        [] \<Rightarrow> []
      | d # ds \<Rightarrow> (case content d of None \<Rightarrow> [] | Some p \<Rightarrow> p))"

definition reasoning_fragments :: "(nat \<times> chunk) list \<Rightarrow> string list" where
  "reasoning_fragments stream = map (reasoning_piece \<circ> snd) stream"

text \<open>
  Offset \<open>i\<close> is the lowest starting offset of an occurrence of \<open>sub\<close> in \<open>s\<close>.
\<close>

definition first_occurrence :: "string \<Rightarrow> string \<Rightarrow> nat \<Rightarrow> bool" where
  "first_occurrence s sub i \<longleftrightarrow>
     i + length sub \<le> length s \<and> take (length sub) (drop i s) = sub \<and>
     (\<forall>j<i. take (length sub) (drop j s) \<noteq> sub)"

text \<open>
  The first-token bookkeeping of the loop: the flag is set only together with the
  time, and nothing is accumulated before the flag is set.
\<close>

definition token_inv :: "locals \<Rightarrow> bool" where
  "token_inv s \<longleftrightarrow>
     (v_first_token_received s \<longrightarrow> v_time_to_first_token s \<noteq> None) \<and>
     (v_raw_reasoning s \<noteq> [] \<or> v_raw_content s \<noteq> [] \<longrightarrow> v_first_token_received s)"

section \<open>The realtime transcription session: \<^verbatim>\<open>RealtimeASRClient.transcribe_once\<close>\<close>

text \<open>
  The configuration selects the device and the service and takes no part in the
  control flow; what the device and the service do is given by a script (below).
\<close>

text \<open>
  Exceptions. \<open>Exception\<close> stands for any instance of \<^verbatim>\<open>Exception\<close> raised by the
  audio device or the recognition service, with its message \<^verbatim>\<open>str(e)\<close>;
  \<open>RuntimeError\<close> is the one \<^verbatim>\<open>transcribe_once\<close> raises itself.
  \<^verbatim>\<open>KeyboardInterrupt\<close> is not an \<^verbatim>\<open>Exception\<close>.
\<close>

datatype exn = KeyboardInterrupt | Exception string | RuntimeError string

fun is_Exception :: "exn \<Rightarrow> bool" where
  "is_Exception KeyboardInterrupt = False"
| "is_Exception (Exception m) = True"
| "is_Exception (RuntimeError m) = True"

fun str_of :: "exn \<Rightarrow> string" where
  "str_of KeyboardInterrupt = []"
| "str_of (Exception m) = m"
| "str_of (RuntimeError m) = m"

text \<open>\<^verbatim>\<open>str.lower\<close> on the code points below 256.\<close>

definition to_lower :: "char \<Rightarrow> char" where
  "to_lower c =
     (let n = (of_char c :: nat) in
      if (65 \<le> n \<and> n \<le> 90) \<or> (192 \<le> n \<and> n \<le> 222 \<and> n \<noteq> 215)
      then char_of (n + 32) else c)"

definition lower :: "string \<Rightarrow> string" where
  "lower s = map to_lower s"

text \<open>\<^verbatim>\<open>" ".join(xs)\<close>\<close>

fun join_space :: "string list \<Rightarrow> string" where
  "join_space [] = []"
| "join_space [x] = x"
| "join_space (x # y # ys) = x @ '' '' @ join_space (y # ys)"

text \<open>
  What the session does to the world outside: calls on the audio device (by handle)
  and on the recognition service, and the metrics line.
\<close>

datatype effect =
    StopStream nat
  | CloseStream nat
  | TerminateMic nat
  | RecognitionStart
  | SendAudioFrame
  | RecognitionStop
  | EmitMetrics

text \<open>The disposition of SIGINT: a handler of the host process, or the session's own.\<close>

datatype handler = HostHandler nat | SessionHandler

text \<open>
  The \<^verbatim>\<open>state\<close> dictionary of \<^verbatim>\<open>transcribe_once\<close>, one field per key, together with
  what the session shares with the process: the installed SIGINT handler, the number
  of audio devices opened so far (the next handle) and the effects so far. \<open>mic\<close> and
  \<open>stream\<close> hold the handle of the open device.
\<close>

record session =
  mic :: "nat option"
  stream :: "nat option"
  sentences :: "string list"
  last_text :: string
  request_id :: string
  error :: "string option"
  stopping :: bool
  stopped :: bool
  sigint :: handler
  devices :: nat
  effects :: "effect list"

definition init_session :: "handler \<Rightarrow> session" where
  "init_session h =
     \<lparr> mic = None, stream = None, sentences = [], last_text = [], request_id = [],
       error = None, stopping = False, stopped = False,
       sigint = h, devices = 0, effects = [] \<rparr>"

subsection \<open>The callbacks\<close>

text \<open>
  \<^verbatim>\<open>on_open\<close> opens the audio device; \<open>failure\<close> is the exception of
  \<^verbatim>\<open>pyaudio.PyAudio()\<close> or \<^verbatim>\<open>mic.open\<close>, if one is raised, and then the state is
  left as it was.
\<close>

definition on_open :: "exn option \<Rightarrow> session \<Rightarrow> exn + session" where
  "on_open failure s =
     (case failure of
        Some e \<Rightarrow> Inl e
      | None \<Rightarrow>
          Inr (s\<lparr> mic := Some (devices s), stream := Some (devices s),
                  devices := Suc (devices s) \<rparr>))"

text \<open>
  \<^verbatim>\<open>on_close\<close>: the exceptions of \<^verbatim>\<open>stop_stream\<close>, \<^verbatim>\<open>close\<close> and \<^verbatim>\<open>terminate\<close>
  are swallowed, so each call is made whatever the one before did.
\<close>

definition on_close :: "session \<Rightarrow> session" where
  "on_close s =
     s\<lparr> effects := effects s
          @ (case stream s of Some h \<Rightarrow> [StopStream h, CloseStream h] | None \<Rightarrow> [])
          @ (case mic s of Some m \<Rightarrow> [TerminateMic m] | None \<Rightarrow> []),
        stream := None, mic := None \<rparr>"

definition on_complete :: "session \<Rightarrow> session" where
  "on_complete s = s"

definition on_error :: "string \<Rightarrow> string \<Rightarrow> session \<Rightarrow> session" where
  "on_error rid msg_text s = s\<lparr> error := Some (rid @ '': '' @ msg_text) \<rparr>"

text \<open>
  \<^verbatim>\<open>on_event\<close>: \<open>sentence_text\<close> is the \<^verbatim>\<open>"text"\<close> of the sentence, \<^const>\<open>None\<close> when
  the sentence is no dictionary or has no such key; \<open>rid\<close> is the request id and
  \<open>sentence_end\<close> the value of \<^verbatim>\<open>is_sentence_end\<close>.
\<close>

definition on_event :: "string option \<Rightarrow> string \<Rightarrow> bool \<Rightarrow> session \<Rightarrow> session" where
  "on_event sentence_text rid sentence_end s =
     (case sentence_text of
        None \<Rightarrow> s
      | Some raw \<Rightarrow>
          (let text = strip raw;
               s1 = (if text \<noteq> [] then s\<lparr> last_text := text \<rparr> else s);
               s2 = s1\<lparr> request_id := rid \<rparr>
           in if sentence_end \<and> text \<noteq> []
              then s2\<lparr> sentences := sentences s2 @ [text] \<rparr> else s2))"

datatype callback =
    OnOpen "exn option"
  | OnClose
  | OnComplete
  | OnError string string
  | OnEvent "string option" string bool

fun run_callback :: "callback \<Rightarrow> session \<Rightarrow> exn + session" where
  "run_callback (OnOpen failure) s = on_open failure s"
| "run_callback OnClose s = Inr (on_close s)"
| "run_callback OnComplete s = Inr (on_complete s)"
| "run_callback (OnError rid msg_text) s = Inr (on_error rid msg_text s)"
| "run_callback (OnEvent sentence_text rid sentence_end) s =
     Inr (on_event sentence_text rid sentence_end s)"

subsection \<open>The environment\<close>

text \<open>
  What happens to the session from outside while the main thread is inside a call:
  the service delivers a callback, or SIGINT arrives. An exception raised inside a
  delivered callback stays with the service's delivery context. The session's own
  handler sets \<open>stopping\<close>; what a handler of the host does is outside the session.
\<close>

datatype event = Deliver callback | Sigint

definition signal_handler :: "session \<Rightarrow> session" where
  "signal_handler s = s\<lparr> stopping := True \<rparr>"

fun run_event :: "session \<Rightarrow> event \<Rightarrow> session" where
  "run_event s (Deliver cb) = (case run_callback cb s of Inl e \<Rightarrow> s | Inr s' \<Rightarrow> s')"
| "run_event s Sigint =
     (case sigint s of SessionHandler \<Rightarrow> signal_handler s | HostHandler h \<Rightarrow> s)"

definition run_events :: "event list \<Rightarrow> session \<Rightarrow> session" where
  "run_events es s = foldl run_event s es"

text \<open>
  A call into the recognition service (\<^verbatim>\<open>start\<close>, \<^verbatim>\<open>stop\<close>): the events that
  happen during the call, and the exception it raises, if any.
\<close>

type_synonym outcome = "event list \<times> exn option"

definition call :: "outcome \<Rightarrow> session \<Rightarrow> exn option \<times> session" where
  "call out s = (snd out, run_events (fst out) s)"

subsection \<open>\<^verbatim>\<open>_stop_recognition\<close>\<close>

definition stop_recognition :: "outcome \<Rightarrow> session \<Rightarrow> exn option \<times> session" where
  "stop_recognition out s =
     (if stopped s then (None, s)
      else
        (let s1 = s\<lparr> stopped := True \<rparr>;
             (ex, s2) = call out (s1\<lparr> effects := effects s1 @ [RecognitionStop] \<rparr>)
         in case ex of
              Some e \<Rightarrow> (Some e, s2)
            | None \<Rightarrow> (None, s2\<lparr> effects := effects s2 @ [EmitMetrics] \<rparr>)))"

text \<open>The stop path invoked once per element of the list, exceptions set aside.\<close>

definition stop_many :: "outcome list \<Rightarrow> session \<Rightarrow> session" where
  "stop_many outs s = foldl (\<lambda>s out. snd (stop_recognition out s)) s outs"

subsection \<open>The drive loop\<close>

text \<open>
  One pass through the body of the \<^verbatim>\<open>while\<close> loop, as the environment decides it:
  the events that arrive while the loop sleeps or blocks in \<^verbatim>\<open>stream.read\<close>, the
  exception of the read, the events that arrive while the frame is sent, and the
  exception of \<^verbatim>\<open>send_audio_frame\<close>.
\<close>

record iteration =
  arriving :: "event list"
  read_error :: "exn option"
  arriving_send :: "event list"
  send_error :: "exn option"

text \<open>The state when \<^verbatim>\<open>stream.read\<close> returns or raises (or the sleep ends).\<close>

definition after_read :: "iteration \<Rightarrow> session \<Rightarrow> session" where
  "after_read it s = run_events (arriving it) s"

text \<open>The state when \<^verbatim>\<open>send_audio_frame\<close> returns or raises.\<close>

definition after_send :: "iteration \<Rightarrow> session \<Rightarrow> session" where
  "after_send it s =
     (let s1 = after_read it s in
      run_events (arriving_send it) (s1\<lparr> effects := effects s1 @ [SendAudioFrame] \<rparr>))"

datatype flow = Next session | Exit session | Raised exn session

fun flow_session :: "flow \<Rightarrow> session" where
  "flow_session (Next s) = s"
| "flow_session (Exit s) = s"
| "flow_session (Raised e s) = s"

definition body :: "iteration \<Rightarrow> session \<Rightarrow> flow" where
  "body it s =
     (case stream s of
        None \<Rightarrow> Next (after_read it s)
      | Some h \<Rightarrow>
          (case read_error it of
             Some e \<Rightarrow> Raised e (after_read it s)
           | None \<Rightarrow>
               (let s2 = after_send it s in
                case send_error it of
                  Some e \<Rightarrow>
                    if is_Exception e then
                      (if stopping s2 \<and> contains (lower (str_of e)) ''stopped''
                       then Exit s2 else Raised e s2)
                    else Raised e s2
                | None \<Rightarrow> if truthy (error s2) then Exit s2 else Next s2)))"

text \<open>
  The loop over a finite script of passes. It may run for ever: \<^const>\<open>None\<close> says
  that the script ended with the loop still running. Otherwise the result is the
  exception that leaves the loop, if any, and the state at loop exit.
\<close>

fun drive :: "iteration list \<Rightarrow> session \<Rightarrow> (exn option \<times> session) option" where
  "drive [] s = (if stopping s then Some (None, s) else None)"
| "drive (it # rest) s =
     (if stopping s then Some (None, s)
      else case body it s of
             Next s' \<Rightarrow> drive rest s'
           | Exit s' \<Rightarrow> Some (None, s')
           | Raised e s' \<Rightarrow> Some (Some e, s'))"

subsection \<open>\<^verbatim>\<open>transcribe_once\<close>\<close>

text \<open>The statements after the \<^verbatim>\<open>try\<close> block.\<close>

definition transcript :: "session \<Rightarrow> exn + string" where
  "transcript s =
     (if truthy (error s) then Inl (RuntimeError (''ASR failed: '' @ the (error s)))
      else
        (let text = strip (join_space (sentences s)) in
         Inr (if text = [] then strip (last_text s) else text)))"

text \<open>
  The \<^verbatim>\<open>except KeyboardInterrupt\<close> clause, the \<^verbatim>\<open>finally\<close> clause and the
  statements after them, from the way the loop was left. An exception raised by the
  \<^verbatim>\<open>finally\<close> clause replaces the one that was pending.
\<close>

definition after_loop ::
  "handler \<Rightarrow> outcome \<Rightarrow> exn option \<times> session \<Rightarrow> (exn + string) \<times> session" where
  "after_loop previous_handler stop_out left =
     (let (pending, s) =
            (case left of
               (Some KeyboardInterrupt, s) \<Rightarrow> (None, s\<lparr> stopping := True \<rparr>)
             | (ex, s) \<Rightarrow> (ex, s));
          s1 = s\<lparr> sigint := previous_handler \<rparr>;
          (ex, s2) = stop_recognition stop_out s1
      in case ex of
           Some e \<Rightarrow> (Inl e, s2)
         | None \<Rightarrow>
             (case pending of
                Some e \<Rightarrow> (Inl e, s2)
              | None \<Rightarrow> (transcript s2, s2)))"

text \<open>
  Everything the environment decides in one execution: whether the imports fail,
  what \<^verbatim>\<open>recognition.start()\<close> and \<^verbatim>\<open>recognition.stop()\<close> do, and the passes of
  the loop.
\<close>

record script =
  import_fails :: bool
  start_outcome :: outcome
  iterations :: "iteration list"
  stop_outcome :: outcome

text \<open>
  The statements up to the \<^verbatim>\<open>try\<close> block: the state at the start of the loop, or
  the exception raised before it.
\<close>

definition before_loop :: "script \<Rightarrow> handler \<Rightarrow> (exn \<times> session) + session" where
  "before_loop sc h =
     (if import_fails sc
      then Inl (RuntimeError ''Missing dependencies. Please install: pip install dashscope pyaudio'',
                init_session h)
      else
        (let s0 = init_session h;
             s1 = s0\<lparr> sigint := SessionHandler \<rparr>;
             (ex, s2) = call (start_outcome sc) (s1\<lparr> effects := effects s1 @ [RecognitionStart] \<rparr>)
         in case ex of Some e \<Rightarrow> Inl (e, s2) | None \<Rightarrow> Inr s2))"

text \<open>
  \<^verbatim>\<open>transcribe_once\<close> in a process whose SIGINT handler is \<open>h\<close>: what it returns or
  raises and the state it leaves, or \<^const>\<open>None\<close> when the loop does not end.
\<close>

definition transcribe_once :: "script \<Rightarrow> handler \<Rightarrow> ((exn + string) \<times> session) option" where
  "transcribe_once sc h =
     (case before_loop sc h of
        Inl (e, s) \<Rightarrow> Some (Inl e, s)
      | Inr s \<Rightarrow>
          map_option (after_loop h (stop_outcome sc)) (drive (iterations sc) s))"

text \<open>The handles released so far, by kind.\<close>

fun closed_streams :: "effect list \<Rightarrow> nat list" where
  "closed_streams [] = []"
| "closed_streams (CloseStream h # es) = h # closed_streams es"
| "closed_streams (e # es) = closed_streams es"

fun terminated_mics :: "effect list \<Rightarrow> nat list" where
  "terminated_mics [] = []"
| "terminated_mics (TerminateMic h # es) = h # terminated_mics es"
| "terminated_mics (e # es) = terminated_mics es"

text \<open>
  The device invariant: handles are numbered below \<open>devices\<close>, the handles held in
  the state have not been released, and no handle was released twice.
\<close>

definition device_inv :: "session \<Rightarrow> bool" where
  "device_inv s \<longleftrightarrow>
     (\<forall>h. stream s = Some h \<longrightarrow> h < devices s \<and> h \<notin> set (closed_streams (effects s))) \<and>
     (\<forall>h. mic s = Some h \<longrightarrow> h < devices s \<and> h \<notin> set (terminated_mics (effects s))) \<and>
     (\<forall>h \<in> set (closed_streams (effects s)). h < devices s) \<and>
     (\<forall>h \<in> set (terminated_mics (effects s)). h < devices s) \<and>
     distinct (closed_streams (effects s)) \<and>
     distinct (terminated_mics (effects s))"

text \<open>The invariant on the \<open>error\<close> field: it is never the empty string.\<close>

definition error_inv :: "session \<Rightarrow> bool" where
  "error_inv s \<longleftrightarrow> error s \<noteq> Some []"

section \<open>Example streams and sessions\<close>

text \<open>A content stream whose fragment boundary falls inside \<^verbatim>\<open>do(action=\<close>.\<close>

definition split_inside_marker :: "(nat \<times> chunk) list" where
  "split_inside_marker =
     [(1, content_chunk ''I will do(''), (2, content_chunk ''action=Launch)'')]"

definition unsplit :: "(nat \<times> chunk) list" where
  "unsplit = [(1, content_chunk ''I will do(action=Launch)'')]"

definition weather_fragments :: "(nat \<times> string) list" where
  "weather_fragments =
     [(1, ''I will ''), (2, ''check the weather.'' @ [CHR 0x0A] @ ''do(action=''),
      (3, ''Launch)'')]"

text \<open>A chunk that carries nothing: no reasoning and no content.\<close>

definition empty_delta_chunk :: chunk where
  "empty_delta_chunk =
     \<lparr> choices = [\<lparr> reasoning_content = None, reasoning = None, content = None \<rparr>] \<rparr>"

definition reasoning_and_marker :: "(nat \<times> chunk) list" where
  "reasoning_and_marker =
     [(1, \<lparr> choices = [\<lparr> reasoning_content = Some '' plan the tap '', reasoning = None,
                          content = None \<rparr>] \<rparr>),
      (2, content_chunk ''thought do(action=Tap)'')]"

text \<open>A pass of the loop in which nothing arrives and nothing fails.\<close>

definition pass :: iteration where
  "pass = \<lparr> arriving = [], read_error = None, arriving_send = [], send_error = None \<rparr>"

text \<open>SIGINT arrives while the loop blocks in a read, and the read then fails.\<close>

definition failing_read :: iteration where
  "failing_read = pass\<lparr> arriving := [Sigint], read_error := Some (Exception ''Stream closed'') \<rparr>"

text \<open>SIGINT arrives while a frame is sent, and the send fails for another reason.\<close>

definition failing_send :: iteration where
  "failing_send =
     pass\<lparr> arriving_send := [Sigint], send_error := Some (Exception ''Connection reset'') \<rparr>"

text \<open>SIGINT arrives while a frame is sent, and the service says that it has stopped.\<close>

definition benign_send :: iteration where
  "benign_send =
     pass\<lparr> arriving_send := [Sigint],
           send_error := Some (Exception ''Speech recognition has stopped.'') \<rparr>"

text \<open>\<^verbatim>\<open>recognition.start()\<close> raises: no input device.\<close>

definition start_fails :: script where
  "start_fails =
     \<lparr> import_fails = False,
       start_outcome = ([], Some (Exception ''Invalid input device'')),
       iterations = [], stop_outcome = ([], None) \<rparr>"

definition read_fails_while_stopping :: script where
  "read_fails_while_stopping =
     \<lparr> import_fails = False,
       start_outcome = ([Deliver (OnOpen None)], None),
       iterations = [failing_read],
       stop_outcome = ([Deliver OnClose], None) \<rparr>"

definition send_fails_while_stopping :: script where
  "send_fails_while_stopping =
     \<lparr> import_fails = False,
       start_outcome = ([Deliver (OnOpen None)], None),
       iterations = [failing_send],
       stop_outcome = ([Deliver OnClose], None) \<rparr>"

text \<open>A sentence is finalised, then the service reports an error.\<close>

definition error_after_sentence :: script where
  "error_after_sentence =
     \<lparr> import_fails = False,
       start_outcome = ([Deliver (OnOpen None)], None),
       iterations =
         [pass\<lparr> arriving := [Deliver (OnEvent (Some ''hello world '') ''r1'' True)] \<rparr>,
          pass\<lparr> arriving_send := [Deliver (OnError ''r1'' ''timeout'')] \<rparr>],
       stop_outcome = ([Deliver OnClose], None) \<rparr>"

text \<open>The service delivers \<^verbatim>\<open>on_close\<close> twice while the session stops.\<close>

definition closed_twice :: script where
  "closed_twice =
     \<lparr> import_fails = False,
       start_outcome = ([Deliver (OnOpen None)], None),
       iterations = [pass, pass\<lparr> arriving_send := [Sigint] \<rparr>],
       stop_outcome = ([Deliver OnClose, Deliver OnClose], None) \<rparr>"

text \<open>A session at the start of the loop, with the device open.\<close>

definition listening :: session where
  "listening =
     run_events [Deliver (OnOpen None)]
       ((init_session (HostHandler 0))\<lparr> sigint := SessionHandler \<rparr>)"

section \<open>Properties of the string operations and of the stream loop\<close>

lemma mark_first_token_fields [simp]:
  "v_raw_content (mark_first_token now s) = v_raw_content s"
  "v_raw_reasoning (mark_first_token now s) = v_raw_reasoning s"
  "v_buffer (mark_first_token now s) = v_buffer s"
  "v_in_action_phase (mark_first_token now s) = v_in_action_phase s"
  "v_stdout (mark_first_token now s) = v_stdout s"
  "v_first_token_received (mark_first_token now s)"
  by (simp_all add: mark_first_token_def)

lemma handle_reasoning_raw_content [simp]:
  "v_raw_content (handle_reasoning now d s) = v_raw_content s"
  by (simp add: handle_reasoning_def Let_def)

lemma handle_content_raw_reasoning [simp]:
  "v_raw_reasoning (handle_content now d s) = v_raw_reasoning s"
  by (simp add: handle_content_def Let_def split: option.splits)

lemma process_chunk_raw_content:
  "v_raw_content (process_chunk s tc) = v_raw_content s @ content_piece (snd tc)"
  by (simp add: process_chunk_def content_piece_def handle_content_def Let_def
           split: list.splits option.splits)

lemma process_chunk_raw_reasoning:
  "v_raw_reasoning (process_chunk s tc) = v_raw_reasoning s @ reasoning_piece (snd tc)"
  by (simp add: process_chunk_def reasoning_piece_def handle_reasoning_def Let_def
           split: list.splits)

lemma foldl_raw_content:
  "v_raw_content (foldl process_chunk s chunks)
     = v_raw_content s @ concat (map (content_piece \<circ> snd) chunks)"
  by (induction chunks arbitrary: s) (simp_all add: process_chunk_raw_content)

lemma foldl_raw_reasoning:
  "v_raw_reasoning (foldl process_chunk s chunks)
     = v_raw_reasoning s @ concat (map (reasoning_piece \<circ> snd) chunks)"
  by (induction chunks arbitrary: s) (simp_all add: process_chunk_raw_reasoning)

lemma token_inv_mark: "token_inv s \<Longrightarrow> token_inv (mark_first_token now s)"
  by (simp add: token_inv_def mark_first_token_def)

lemma token_inv_handle_reasoning: "token_inv s \<Longrightarrow> token_inv (handle_reasoning now d s)"
  by (auto simp add: token_inv_def handle_reasoning_def Let_def mark_first_token_def)

lemma token_inv_handle_content: "token_inv s \<Longrightarrow> token_inv (handle_content now d s)"
  by (auto simp add: token_inv_def handle_content_def Let_def mark_first_token_def
       split: option.splits)

lemma token_inv_process: "token_inv s \<Longrightarrow> token_inv (process_chunk s tc)"
  by (simp add: process_chunk_def token_inv_handle_content token_inv_handle_reasoning
       split: list.splits)

lemma token_inv_foldl: "token_inv s \<Longrightarrow> token_inv (foldl process_chunk s chunks)"
  by (induction chunks arbitrary: s) (simp_all add: token_inv_process)

lemma token_inv_init: "token_inv init_locals"
  by (simp add: token_inv_def init_locals_def)

lemma final_flush_fields [simp]:
  "v_raw_content (final_flush s) = v_raw_content s"
  "v_raw_reasoning (final_flush s) = v_raw_reasoning s"
  "v_time_to_first_token (final_flush s) = v_time_to_first_token s"
  "v_first_token_received (final_flush s) = v_first_token_received s"
  by (simp_all add: final_flush_def)

lemma run_stream_raw_content:
  "v_raw_content (run_stream chunks) = concat (map (content_piece \<circ> snd) chunks)"
  by (simp add: run_stream_def foldl_raw_content init_locals_def)

lemma run_stream_raw_reasoning:
  "v_raw_reasoning (run_stream chunks) = concat (map (reasoning_piece \<circ> snd) chunks)"
  by (simp add: run_stream_def foldl_raw_reasoning init_locals_def)

lemma run_stream_token_inv: "token_inv (run_stream chunks)"
  using token_inv_foldl [OF token_inv_init, of chunks]
  by (simp add: run_stream_def token_inv_def)

lemma content_received:
  "v_first_token_received s \<Longrightarrow> v_first_token_received (process_chunk s tc)"
  by (auto simp add: process_chunk_def handle_content_def handle_reasoning_def Let_def mark_first_token_def
       split: list.splits option.splits)

lemma content_chunk_received:
  "v_first_token_received (process_chunk s (t, content_chunk f))"
  by (auto simp add: process_chunk_def content_chunk_def handle_content_def handle_reasoning_def Let_def mark_first_token_def py_or_def truthy_def
       split: list.splits option.splits)

lemma foldl_received:
  "v_first_token_received s \<Longrightarrow> v_first_token_received (foldl process_chunk s chunks)"
  by (induction chunks arbitrary: s) (simp_all add: content_received)

lemma content_stream_received:
  "tfs \<noteq> [] \<Longrightarrow>
   v_first_token_received
     (foldl process_chunk s (map (\<lambda>(t, f). (t, content_chunk f)) tfs))"
  by (cases tfs) (auto simp add: foldl_received content_chunk_received)

lemma received_ttft:
  "v_first_token_received (foldl process_chunk init_locals chunks) \<Longrightarrow>
   \<exists>t. v_time_to_first_token (run_stream chunks) = Some t"
  using run_stream_token_inv [of chunks]
  by (auto simp add: token_inv_def run_stream_def)

lemma request_Inr:
  assumes "v_time_to_first_token (run_stream chunks) = Some t"
  shows "\<exists>r. request chunks e = Inr r \<and>
     thinking r =
       (if strip (concat (map (reasoning_piece \<circ> snd) chunks)) \<noteq> []
        then strip (concat (map (reasoning_piece \<circ> snd) chunks))
        else fst (parse_response (concat (map (content_piece \<circ> snd) chunks)))) \<and>
     action r = snd (parse_response (concat (map (content_piece \<circ> snd) chunks))) \<and>
     raw_content r = concat (map (content_piece \<circ> snd) chunks)"
  using assms
  by (simp add: request_def Let_def run_stream_raw_content run_stream_raw_reasoning
        split: prod.splits)

lemma content_piece_content_chunk [simp]: "content_piece (content_chunk f) = f"
  by (simp add: content_piece_def content_chunk_def)

lemma reasoning_piece_content_chunk [simp]: "reasoning_piece (content_chunk f) = []"
  by (simp add: reasoning_piece_def content_chunk_def py_or_def truthy_def)

lemma content_stream_pieces:
  "concat (map (content_piece \<circ> snd) (map (\<lambda>(t, f). (t, content_chunk f)) tfs))
     = concat (map snd tfs)"
  by (induction tfs) auto

lemma content_stream_reasoning:
  "concat (map (reasoning_piece \<circ> snd) (map (\<lambda>(t, f). (t, content_chunk f)) tfs)) = []"
  by (induction tfs) auto

lemma strip_Nil [simp]: "strip [] = []"
  by (simp add: strip_def lstrip_def rstrip_def)

lemma startswith_take: "startswith s p \<longleftrightarrow> length p \<le> length s \<and> take (length p) s = p"
  by (induction s p rule: startswith.induct) auto

lemma py_find_Some:
  "py_find s sub = Some i \<Longrightarrow>
     i + length sub \<le> length s \<and> startswith (drop i s) sub \<and>
     (\<forall>j<i. \<not> startswith (drop j s) sub)"
proof (induction s arbitrary: i)
  case Nil
  then show ?case by (simp split: if_splits)
next
  case (Cons c cs)
  show ?case
  proof (cases "startswith (c # cs) sub")
    case True
    with Cons.prems show ?thesis by (simp add: startswith_take)
  next
    case False
    with Cons.prems obtain k where k: "py_find cs sub = Some k" "i = Suc k"
      by auto
    from Cons.IH [OF k(1)] False k(2) show ?thesis
      by (auto simp add: less_Suc_eq_0_disj)
  qed
qed

lemma py_find_None:
  "py_find s sub = None \<Longrightarrow> \<not> startswith (drop j s) sub"
proof (induction s arbitrary: j)
  case Nil
  then show ?case by (cases sub) (simp_all split: if_splits)
next
  case (Cons c cs)
  then show ?case by (cases j) (auto split: if_splits)
qed

lemma first_occurrence_find:
  "py_find s sub = Some i \<Longrightarrow> first_occurrence s sub i"
proof -
  assume "py_find s sub = Some i"
  from py_find_Some [OF this] show ?thesis
    unfolding first_occurrence_def startswith_take
    apply (intro conjI)
      apply simp
     apply simp
    apply clarify
    subgoal for j by (drule spec [of _ j]) auto
    done
qed

lemma contains_first_occurrence:
  "contains s sub \<Longrightarrow> \<exists>i. py_find s sub = Some i \<and> first_occurrence s sub i"
  by (auto simp add: contains_def first_occurrence_find)

lemma contains_iff:
  "contains s sub \<longleftrightarrow> (\<exists>j. j + length sub \<le> length s \<and> take (length sub) (drop j s) = sub)"
proof
  assume "contains s sub"
  then show "\<exists>j. j + length sub \<le> length s \<and> take (length sub) (drop j s) = sub"
    using contains_first_occurrence [of s sub] by (auto simp add: first_occurrence_def)
next
  assume "\<exists>j. j + length sub \<le> length s \<and> take (length sub) (drop j s) = sub"
  then obtain j where "j + length sub \<le> length s" "take (length sub) (drop j s) = sub" by blast
  then have "startswith (drop j s) sub" by (simp add: startswith_take)
  then show "contains s sub" using py_find_None [of s sub j] by (auto simp add: contains_def)
qed

lemma split1_found:
  "py_find s sep = Some i \<Longrightarrow> split1 s sep ! 0 = take i s \<and> split1 s sep ! 1 = drop (i + length sep) s"
  by (simp add: split1_def)

lemma marker_rejoin:
  "first_occurrence s sub i \<Longrightarrow> sub @ drop (i + length sub) s = drop i s"
proof -
  assume "first_occurrence s sub i"
  then have "take (length sub) (drop i s) = sub" by (simp add: first_occurrence_def)
  then have "sub @ drop (length sub) (drop i s) = drop i s"
    by (metis append_take_drop_id)
  then show ?thesis by (simp add: add.commute)
qed

lemma first_occurrence_unique:
  "first_occurrence s sub i \<Longrightarrow> first_occurrence s sub j \<Longrightarrow> i = j"
  by (metis first_occurrence_def nat_neq_iff)

section \<open>Properties of the session\<close>

lemma run_event_stopped [simp]: "stopped (run_event s ev) = stopped s"
proof (cases ev)
  case (Deliver cb)
  then show ?thesis
    by (cases cb)
       (simp_all add: on_open_def on_close_def on_complete_def on_error_def on_event_def
          Let_def split: option.splits)
next
  case Sigint
  then show ?thesis by (simp add: signal_handler_def split: handler.splits)
qed

lemma run_events_stopped [simp]: "stopped (run_events es s) = stopped s"
  unfolding run_events_def by (induction es arbitrary: s) simp_all

lemma stop_recognition_stopped: "stopped (snd (stop_recognition out s))"
  by (simp add: stop_recognition_def call_def Let_def split: option.splits)

lemma stop_recognition_again: "stopped s \<Longrightarrow> stop_recognition out s = (None, s)"
  by (simp add: stop_recognition_def)

lemma stop_many_stopped: "stopped s \<Longrightarrow> stop_many outs s = s"
  unfolding stop_many_def by (induction outs) (simp_all add: stop_recognition_again)

lemma stop_many_Cons: "stop_many (out # outs) s = snd (stop_recognition out s)"
proof -
  have "stop_many (out # outs) s = stop_many outs (snd (stop_recognition out s))"
    by (simp add: stop_many_def)
  then show ?thesis by (simp add: stop_many_stopped stop_recognition_stopped)
qed

lemma closed_streams_append [simp]:
  "closed_streams (xs @ ys) = closed_streams xs @ closed_streams ys"
  by (induction xs rule: closed_streams.induct) simp_all

lemma terminated_mics_append [simp]:
  "terminated_mics (xs @ ys) = terminated_mics xs @ terminated_mics ys"
  by (induction xs rule: terminated_mics.induct) simp_all

lemma device_inv_init: "device_inv (init_session h)"
  by (simp add: device_inv_def init_session_def)

lemma device_inv_on_open: "device_inv s \<Longrightarrow> on_open f s = Inr s' \<Longrightarrow> device_inv s'"
  by (auto simp add: device_inv_def on_open_def less_Suc_eq split: option.splits)

lemma device_inv_on_close: "device_inv s \<Longrightarrow> device_inv (on_close s)"
  by (auto simp add: device_inv_def on_close_def split: option.splits)

lemma device_inv_on_event: "device_inv s \<Longrightarrow> device_inv (on_event t r e s)"
  by (simp add: device_inv_def on_event_def Let_def split: option.splits)

lemma device_inv_run_event: "device_inv s \<Longrightarrow> device_inv (run_event s ev)"
proof (cases ev)
  case (Deliver cb)
  assume inv: "device_inv s"
  show ?thesis
  proof (cases cb)
    case (OnOpen f)
    with Deliver inv show ?thesis
      by (auto split: sum.splits dest: device_inv_on_open)
  next
    case OnClose
    with Deliver inv show ?thesis by (simp add: device_inv_on_close)
  next
    case OnComplete
    with Deliver inv show ?thesis by (simp add: on_complete_def)
  next
    case (OnError r m)
    with Deliver inv show ?thesis by (simp add: on_error_def device_inv_def)
  next
    case (OnEvent t r e)
    with Deliver inv show ?thesis by (simp add: device_inv_on_event)
  qed
next
  case Sigint
  assume "device_inv s"
  with Sigint show ?thesis
    by (simp add: signal_handler_def device_inv_def split: handler.splits)
qed

lemma device_inv_run_events: "device_inv s \<Longrightarrow> device_inv (run_events es s)"
  unfolding run_events_def by (induction es arbitrary: s) (simp_all add: device_inv_run_event)

lemma device_inv_effect:
  "device_inv s \<Longrightarrow> closed_streams [e] = [] \<Longrightarrow> terminated_mics [e] = [] \<Longrightarrow>
   device_inv (s\<lparr> effects := effects s @ [e] \<rparr>)"
  by (simp add: device_inv_def)

lemma device_inv_flags:
  "device_inv (s\<lparr> stopped := b \<rparr>) = device_inv s"
  "device_inv (s\<lparr> stopping := b \<rparr>) = device_inv s"
  "device_inv (s\<lparr> sigint := h \<rparr>) = device_inv s"
  by (simp_all add: device_inv_def)

lemma device_inv_frame:
  "stream s' = stream s \<Longrightarrow> mic s' = mic s \<Longrightarrow> devices s' = devices s \<Longrightarrow>
   closed_streams (effects s') = closed_streams (effects s) \<Longrightarrow>
   terminated_mics (effects s') = terminated_mics (effects s) \<Longrightarrow>
   device_inv s \<Longrightarrow> device_inv s'"
  by (simp add: device_inv_def)

lemma device_inv_stop_recognition:
  "device_inv s \<Longrightarrow> device_inv (snd (stop_recognition out s))"
proof (cases "stopped s")
  case True
  assume "device_inv s"
  with True show ?thesis by (simp add: stop_recognition_def)
next
  case False
  assume inv: "device_inv s"
  let ?s1 = "s\<lparr> stopped := True \<rparr>"
  let ?s2 = "run_events (fst out) (?s1\<lparr> effects := effects ?s1 @ [RecognitionStop] \<rparr>)"
  have "device_inv (?s1\<lparr> effects := effects ?s1 @ [RecognitionStop] \<rparr>)"
    by (rule device_inv_frame [OF _ _ _ _ _ inv]) simp_all
  then have inv2: "device_inv ?s2" by (rule device_inv_run_events)
  have inv3: "device_inv (?s2\<lparr> effects := effects ?s2 @ [EmitMetrics] \<rparr>)"
    by (rule device_inv_frame [OF _ _ _ _ _ inv2]) simp_all
  from False inv2 inv3 show ?thesis
    by (simp add: stop_recognition_def call_def Let_def split: option.splits)
qed

lemma device_inv_stop_many: "device_inv s \<Longrightarrow> device_inv (stop_many outs s)"
  unfolding stop_many_def
  by (induction outs arbitrary: s) (simp_all add: device_inv_stop_recognition)

lemma device_inv_after_read: "device_inv s \<Longrightarrow> device_inv (after_read it s)"
  by (simp add: after_read_def device_inv_run_events)

lemma device_inv_after_send: "device_inv s \<Longrightarrow> device_inv (after_send it s)"
proof -
  assume "device_inv s"
  then have inv1: "device_inv (after_read it s)" by (rule device_inv_after_read)
  let ?s1 = "after_read it s"
  have "device_inv (?s1\<lparr> effects := effects ?s1 @ [SendAudioFrame] \<rparr>)"
    by (rule device_inv_frame [OF _ _ _ _ _ inv1]) simp_all
  then show ?thesis by (simp add: after_send_def Let_def device_inv_run_events)
qed

lemma device_inv_body: "device_inv s \<Longrightarrow> device_inv (flow_session (body it s))"
  by (simp add: body_def Let_def device_inv_after_read device_inv_after_send
        split: option.splits)

lemma device_inv_drive:
  "device_inv s \<Longrightarrow> drive its s = Some (ex, s') \<Longrightarrow> device_inv s'"
proof (induction its arbitrary: s)
  case Nil
  then show ?case by (simp split: if_splits)
next
  case (Cons it rest)
  show ?case
  proof (cases "stopping s")
    case True
    with Cons.prems show ?thesis by simp
  next
    case False
    from device_inv_body [OF Cons.prems(1), of it] Cons.prems(2) False Cons.IH
    show ?thesis by (cases "body it s") auto
  qed
qed

lemma after_loop_eq:
  "after_loop h out (ex, s) =
     (let pending = (if ex = Some KeyboardInterrupt then None else ex);
          s0 = (if ex = Some KeyboardInterrupt then s\<lparr> stopping := True \<rparr> else s);
          r = stop_recognition out (s0\<lparr> sigint := h \<rparr>)
      in case fst r of
           Some e \<Rightarrow> (Inl e, snd r)
         | None \<Rightarrow> (case pending of Some e \<Rightarrow> (Inl e, snd r)
                               | None \<Rightarrow> (transcript (snd r), snd r)))"
proof (cases ex)
  case None
  then show ?thesis
    by (auto simp add: after_loop_def Let_def split: prod.splits option.splits)
next
  case (Some e)
  then show ?thesis
    by (cases e) (auto simp add: after_loop_def Let_def split: prod.splits option.splits)
qed

lemma device_inv_after_loop:
  "device_inv s \<Longrightarrow> device_inv (snd (after_loop h out (ex, s)))"
proof -
  assume inv: "device_inv s"
  let ?s0 = "if ex = Some KeyboardInterrupt then s\<lparr> stopping := True \<rparr> else s"
  have "device_inv (?s0\<lparr> sigint := h \<rparr>)"
    by (rule device_inv_frame [OF _ _ _ _ _ inv]) simp_all
  then have "device_inv (snd (stop_recognition out (?s0\<lparr> sigint := h \<rparr>)))"
    by (rule device_inv_stop_recognition)
  then show ?thesis
    by (cases "ex = Some KeyboardInterrupt")
       (auto simp add: after_loop_eq Let_def split: option.splits)
qed

lemma device_inv_before_loop:
  "device_inv (case before_loop sc h of Inl (e, s) \<Rightarrow> s | Inr s \<Rightarrow> s)"
proof -
  let ?s1 = "(init_session h)\<lparr> sigint := SessionHandler \<rparr>"
  have "device_inv (?s1\<lparr> effects := effects ?s1 @ [RecognitionStart] \<rparr>)"
    by (rule device_inv_frame [OF _ _ _ _ _ device_inv_init [of h]]) simp_all
  then have "device_inv (run_events (fst (start_outcome sc))
                 (?s1\<lparr> effects := effects ?s1 @ [RecognitionStart] \<rparr>))"
    by (rule device_inv_run_events)
  then show ?thesis
    by (simp add: before_loop_def call_def Let_def device_inv_init split: option.splits)
qed

lemma device_inv_transcribe_once:
  "transcribe_once sc h = Some (res, w) \<Longrightarrow> device_inv w"
proof -
  assume run: "transcribe_once sc h = Some (res, w)"
  show ?thesis
  proof (cases "before_loop sc h")
    case (Inl a)
    with run device_inv_before_loop [of sc h] show ?thesis
      by (cases a) (auto simp add: transcribe_once_def)
  next
    case (Inr s)
    with device_inv_before_loop [of sc h] have inv: "device_inv s" by simp
    from run Inr obtain ex s' where
      d: "drive (iterations sc) s = Some (ex, s')" and
      r: "after_loop h (stop_outcome sc) (ex, s') = (res, w)"
      by (auto simp add: transcribe_once_def)
    from device_inv_after_loop [OF device_inv_drive [OF inv d], of h "stop_outcome sc" ex] r
    show ?thesis by simp
  qed
qed

lemma run_event_sigint [simp]: "sigint (run_event s ev) = sigint s"
proof (cases ev)
  case (Deliver cb)
  then show ?thesis
    by (cases cb)
       (simp_all add: on_open_def on_close_def on_complete_def on_error_def on_event_def
          Let_def split: option.splits)
next
  case Sigint
  then show ?thesis by (simp add: signal_handler_def split: handler.splits)
qed

lemma run_events_sigint [simp]: "sigint (run_events es s) = sigint s"
  unfolding run_events_def by (induction es arbitrary: s) simp_all

lemma stop_recognition_sigint [simp]: "sigint (snd (stop_recognition out s)) = sigint s"
  by (simp add: stop_recognition_def call_def Let_def split: option.splits)

lemma after_loop_sigint: "sigint (snd (after_loop h out (ex, s))) = h"
  by (cases "ex = Some KeyboardInterrupt")
     (auto simp add: after_loop_eq Let_def split: option.splits)

lemma after_loop_stopped: "stopped (snd (after_loop h out (ex, s)))"
  by (cases "ex = Some KeyboardInterrupt")
     (auto simp add: after_loop_eq Let_def stop_recognition_stopped split: option.splits)

lemma handler_restored_after_start:
  "before_loop sc h = Inr s \<Longrightarrow> transcribe_once sc h = Some (res, w) \<Longrightarrow> sigint w = h"
proof -
  assume "before_loop sc h = Inr s" and "transcribe_once sc h = Some (res, w)"
  then obtain ex s' where "after_loop h (stop_outcome sc) (ex, s') = (res, w)"
    by (auto simp add: transcribe_once_def)
  with after_loop_sigint [of h "stop_outcome sc" ex s'] show ?thesis by simp
qed

lemma truthy_run_event: "truthy (error s) \<Longrightarrow> truthy (error (run_event s ev))"
proof (cases ev)
  case (Deliver cb)
  assume "truthy (error s)"
  with Deliver show ?thesis
    by (cases cb)
       (simp_all add: on_open_def on_close_def on_complete_def on_error_def on_event_def
          truthy_def Let_def split: option.splits list.splits)
next
  case Sigint
  assume "truthy (error s)"
  with Sigint show ?thesis by (simp add: signal_handler_def split: handler.splits)
qed

lemma truthy_run_events: "truthy (error s) \<Longrightarrow> truthy (error (run_events es s))"
  unfolding run_events_def by (induction es arbitrary: s) (simp_all add: truthy_run_event)

lemma truthy_stop_recognition:
  "truthy (error s) \<Longrightarrow> truthy (error (snd (stop_recognition out s)))"
proof -
  assume t: "truthy (error s)"
  let ?s1 = "s\<lparr> stopped := True \<rparr>"
  from t have "truthy (error (?s1\<lparr> effects := effects ?s1 @ [RecognitionStop] \<rparr>))" by simp
  then have "truthy (error (run_events (fst out) (?s1\<lparr> effects := effects ?s1 @ [RecognitionStop] \<rparr>)))"
    by (rule truthy_run_events)
  with t show ?thesis
    by (simp add: stop_recognition_def call_def Let_def split: option.splits)
qed

lemma error_inv_truthy: "error_inv s \<Longrightarrow> error s \<noteq> None \<Longrightarrow> truthy (error s)"
  by (auto simp add: error_inv_def truthy_def split: option.splits list.splits)

lemma error_inv_run_event: "error_inv s \<Longrightarrow> error_inv (run_event s ev)"
proof (cases ev)
  case (Deliver cb)
  assume "error_inv s"
  with Deliver show ?thesis
    by (cases cb)
       (simp_all add: on_open_def on_close_def on_complete_def on_error_def on_event_def
          error_inv_def Let_def split: option.splits)
next
  case Sigint
  assume "error_inv s"
  with Sigint show ?thesis by (simp add: signal_handler_def error_inv_def split: handler.splits)
qed

lemma error_inv_run_events: "error_inv s \<Longrightarrow> error_inv (run_events es s)"
  unfolding run_events_def by (induction es arbitrary: s) (simp_all add: error_inv_run_event)

lemma error_inv_after_read: "error_inv s \<Longrightarrow> error_inv (after_read it s)"
  by (simp add: after_read_def error_inv_run_events)

lemma error_inv_after_send: "error_inv s \<Longrightarrow> error_inv (after_send it s)"
proof -
  assume "error_inv s"
  then have "error_inv (after_read it s)" by (rule error_inv_after_read)
  then have "error_inv ((after_read it s)\<lparr> effects := effects (after_read it s) @ [SendAudioFrame] \<rparr>)"
    by (simp add: error_inv_def)
  then show ?thesis by (simp add: after_send_def Let_def error_inv_run_events)
qed

lemma error_inv_body: "error_inv s \<Longrightarrow> error_inv (flow_session (body it s))"
  by (simp add: body_def Let_def error_inv_after_read error_inv_after_send
        split: option.splits)

lemma error_inv_drive:
  "error_inv s \<Longrightarrow> drive its s = Some (ex, s') \<Longrightarrow> error_inv s'"
proof (induction its arbitrary: s)
  case Nil
  then show ?case by (simp split: if_splits)
next
  case (Cons it rest)
  show ?case
  proof (cases "stopping s")
    case True
    with Cons.prems show ?thesis by simp
  next
    case False
    from error_inv_body [OF Cons.prems(1), of it] Cons.prems(2) False Cons.IH
    show ?thesis by (cases "body it s") auto
  qed
qed

lemma error_inv_before_loop: "before_loop sc h = Inr s \<Longrightarrow> error_inv s"
proof -
  assume b: "before_loop sc h = Inr s"
  let ?s1 = "(init_session h)\<lparr> sigint := SessionHandler \<rparr>"
  have "error_inv (?s1\<lparr> effects := effects ?s1 @ [RecognitionStart] \<rparr>)"
    by (simp add: error_inv_def init_session_def)
  then have "error_inv (run_events (fst (start_outcome sc))
                 (?s1\<lparr> effects := effects ?s1 @ [RecognitionStart] \<rparr>))"
    by (rule error_inv_run_events)
  with b show ?thesis
    by (auto simp add: before_loop_def call_def Let_def split: option.splits if_splits)
qed

lemma stop_recognition_quiet:
  "snd out = None \<Longrightarrow> fst (stop_recognition out s) = None"
  by (simp add: stop_recognition_def call_def Let_def)

lemma transcript_error:
  "truthy (error s) \<Longrightarrow> \<exists>m. error s = Some m \<and> transcript s = Inl (RuntimeError (''ASR failed: '' @ m))"
  by (auto simp add: transcript_def truthy_def split: option.splits)

section \<open>The claims about the model client\<close>

text \<open>
  C1 (no marker leakage). When a fragment boundary falls inside a marker literal, the
  live echo of the thinking text is to show no part of the marker. The code keeps the
  buffer back only when the whole buffer is a prefix of a marker. On the stream
  \<open>split_inside_marker\<close>, whose first fragment ends with the first three characters of
  \<^verbatim>\<open>do(action=\<close>, the first fragment is echoed as it is, partial marker included; the
  echo of the whole stream is the whole content, and the loop never enters the action
  phase. Delivered as one fragment, the same content is echoed up to the marker only.
\<close>

theorem marker_leaks_when_split:
  "v_stdout (foldl process_chunk init_locals (take 1 split_inside_marker)) = ''I will do('' \<and>
   v_stdout (run_stream split_inside_marker) = ''I will do(action=Launch)'' \<and>
   \<not> v_in_action_phase (run_stream split_inside_marker) \<and>
   v_stdout (run_stream unsplit) = ''I will '' @ [CHR 0x0A]"
  by code_simp

text \<open>
  C2 (the splitter never raises). \<^verbatim>\<open>request\<close> formats \<^verbatim>\<open>time_to_first_token\<close> with
  \<^verbatim>\<open>:.3f\<close> in its metrics line, and the value is still \<^verbatim>\<open>None\<close> when no chunk
  carried a token: on the empty stream, on a chunk without choices and on a chunk whose
  delta carries neither reasoning nor content, \<^verbatim>\<open>request\<close> raises \<^verbatim>\<open>TypeError\<close>
  and returns no response.
\<close>

theorem request_raises_without_token:
  "request [] elapsed = Inl TypeError \<and>
   request [(t, \<lparr> choices = [] \<rparr>)] elapsed = Inl TypeError \<and>
   request [(t, empty_delta_chunk)] elapsed = Inl TypeError"
  by (simp add: request_def run_stream_def final_flush_def init_locals_def
        process_chunk_def handle_reasoning_def handle_content_def empty_delta_chunk_def
        py_or_def truthy_def Let_def split: prod.splits)

text \<open>
  C3 (fragmentation invariance). For every way of delivering a content string in one
  or more fragments, whatever the clock readings, \<^verbatim>\<open>request\<close> returns a response,
  and its thinking and action are those of the response to the string delivered as a
  single fragment. This holds for every string, with or without a marker in it.
\<close>

theorem fragmentation_invariance:
  assumes "tfs \<noteq> []"
  shows "\<exists>r1 r2.
     request (map (\<lambda>(t, f). (t, content_chunk f)) tfs) ea = Inr r1 \<and>
     request [(ta, content_chunk (concat (map snd tfs)))] eb = Inr r2 \<and>
     thinking r1 = thinking r2 \<and> action r1 = action r2"
proof -
  let ?frag = "map (\<lambda>(t, f). (t, content_chunk f)) tfs"
  let ?whole = "[(ta, content_chunk (concat (map snd tfs)))]"
  from assms obtain tf where "v_time_to_first_token (run_stream ?frag) = Some tf"
    using received_ttft content_stream_received by blast
  from request_Inr [OF this, of ea] obtain r1 where
    r1: "request ?frag ea = Inr r1"
    "thinking r1 = fst (parse_response (concat (map snd tfs)))"
    "action r1 = snd (parse_response (concat (map snd tfs)))"
    unfolding content_stream_pieces content_stream_reasoning by auto
  have "v_first_token_received (foldl process_chunk init_locals ?whole)"
    by (simp add: content_chunk_received)
  then obtain tb where "v_time_to_first_token (run_stream ?whole) = Some tb"
    using received_ttft by blast
  from request_Inr [OF this, of eb] obtain r2 where
    r2: "request ?whole eb = Inr r2"
    "thinking r2 = fst (parse_response (concat (map snd tfs)))"
    "action r2 = snd (parse_response (concat (map snd tfs)))"
    by auto
  from r1 r2 show ?thesis by simp
qed

theorem fragmentation_invariance_witness:
  "weather_fragments \<noteq> [] \<and>
   (\<exists>r1 r2.
      request (map (\<lambda>(t, f). (t, content_chunk f)) weather_fragments) 9 = Inr r1 \<and>
      request [(0, content_chunk (concat (map snd weather_fragments)))] 9 = Inr r2 \<and>
      thinking r1 = thinking r2 \<and> action r1 = action r2)"
proof -
  have h: "weather_fragments \<noteq> []" by (simp add: weather_fragments_def)
  from h fragmentation_invariance [OF h, where ea = 9 and ta = 0 and eb = 9]
  show ?thesis by (rule conjI)
qed

text \<open>
  C4 (which marker is the split point). The claim is that among several markers the
  occurrence with the lowest starting offset is the split point. In
  \<^verbatim>\<open>do(action=a)finish(message=b)\<close> the lowest marker occurrence is \<^verbatim>\<open>do(action=\<close> at
  offset 0, and \<^verbatim>\<open>_parse_response\<close> splits at \<^verbatim>\<open>finish(message=\<close>, at offset 12.
\<close>

theorem lowest_offset_counterexample:
  "py_find ''do(action=a)finish(message=b)'' ''do(action='' = Some 0 \<and>
   py_find ''do(action=a)finish(message=b)'' ''finish(message='' = Some 12 \<and>
   parse_response ''do(action=a)finish(message=b)'' = (''do(action=a)'', ''finish(message=b)'')"
  by code_simp

text \<open>
  C4, amended. The split point is chosen by declaration order first: when
  \<^verbatim>\<open>finish(message=\<close> occurs anywhere in the content, the split point is its lowest
  occurrence, whatever else occurs before it; only when it does not occur is the split
  point the lowest occurrence of \<^verbatim>\<open>do(action=\<close>. Thinking is the text before the split
  point, trimmed, and action is the text from the split point on.
\<close>

theorem split_point_by_declaration_order:
  "(contains c ''finish(message='' \<longrightarrow>
      (\<exists>i. first_occurrence c ''finish(message='' i \<and>
           parse_response c = (strip (take i c), drop i c))) \<and>
   (\<not> contains c ''finish(message='' \<and> contains c ''do(action='' \<longrightarrow>
      (\<exists>i. first_occurrence c ''do(action='' i \<and>
           parse_response c = (strip (take i c), drop i c)))"
proof (intro conjI impI)
  assume a: "contains c ''finish(message=''"
  from contains_first_occurrence [OF a] obtain i where
    i: "py_find c ''finish(message='' = Some i" "first_occurrence c ''finish(message='' i" by blast
  from a split1_found [OF i(1)] marker_rejoin [OF i(2)]
  have "parse_response c = (strip (take i c), drop i c)"
    by (simp add: parse_response_def Let_def)
  with i(2) show "\<exists>i. first_occurrence c ''finish(message='' i \<and>
           parse_response c = (strip (take i c), drop i c)" by blast
next
  assume "\<not> contains c ''finish(message='' \<and> contains c ''do(action=''"
  then have n: "\<not> contains c ''finish(message=''" and a: "contains c ''do(action=''" by simp_all
  from contains_first_occurrence [OF a] obtain i where
    i: "py_find c ''do(action='' = Some i" "first_occurrence c ''do(action='' i" by blast
  from n a split1_found [OF i(1)] marker_rejoin [OF i(2)]
  have "parse_response c = (strip (take i c), drop i c)"
    by (simp add: parse_response_def Let_def)
  with i(2) show "\<exists>i. first_occurrence c ''do(action='' i \<and>
           parse_response c = (strip (take i c), drop i c)" by blast
qed

theorem split_point_by_declaration_order_witness:
  "contains ''do(action=a)finish(message=b)'' ''finish(message='' \<and>
   (\<exists>i. first_occurrence ''do(action=a)finish(message=b)'' ''finish(message='' i \<and>
        parse_response ''do(action=a)finish(message=b)'' =
          (strip (take i ''do(action=a)finish(message=b)''),
           drop i ''do(action=a)finish(message=b)'')) \<and>
   \<not> contains ''tap do(action=a)'' ''finish(message='' \<and>
   contains ''tap do(action=a)'' ''do(action='' \<and>
   (\<exists>i. first_occurrence ''tap do(action=a)'' ''do(action='' i \<and>
        parse_response ''tap do(action=a)'' =
          (strip (take i ''tap do(action=a)''), drop i ''tap do(action=a)''))"
proof -
  have a: "contains ''do(action=a)finish(message=b)'' ''finish(message=''" by code_simp
  have b: "\<not> contains ''tap do(action=a)'' ''finish(message=''" by code_simp
  have c: "contains ''tap do(action=a)'' ''do(action=''" by code_simp
  note first = split_point_by_declaration_order
    [where c = "''do(action=a)finish(message=b)''", THEN conjunct1, THEN mp, OF a]
  note second = split_point_by_declaration_order
    [where c = "''tap do(action=a)''", THEN conjunct2, THEN mp, OF conjI [OF b c]]
  from a first b c second show ?thesis by (intro conjI)
qed

text \<open>
  C5 (the secondary form and the full fallback). For a content in which neither
  \<^verbatim>\<open>finish(message=\<close> nor \<^verbatim>\<open>do(action=\<close> occurs: when \<^verbatim>\<open><answer>\<close> occurs,
  thinking is the text before its first occurrence with \<^verbatim>\<open><think>\<close> and then
  \<^verbatim>\<open></think>\<close> removed, trimmed, and action is the text after it with
  \<^verbatim>\<open></answer>\<close> removed, trimmed; when it does not occur, thinking is empty and action
  is the whole content. This is the result of \<^verbatim>\<open>_parse_response\<close>, which \<^verbatim>\<open>request\<close>
  returns as it is when the stream carried no reasoning.
\<close>

theorem secondary_fallback:
  assumes "\<not> contains c ''finish(message=''" and "\<not> contains c ''do(action=''"
  shows "(contains c ''<answer>'' \<longrightarrow>
           (\<exists>i. first_occurrence c ''<answer>'' i \<and>
              parse_response c =
                (strip (replace (replace (take i c) ''<think>'' []) ''</think>'' []),
                 strip (replace (drop (i + length ''<answer>'') c) ''</answer>'' [])))) \<and>
         (\<not> contains c ''<answer>'' \<longrightarrow> parse_response c = ([], c))"
proof (intro conjI impI)
  assume a: "contains c ''<answer>''"
  from contains_first_occurrence [OF a] obtain i where
    i: "py_find c ''<answer>'' = Some i" "first_occurrence c ''<answer>'' i" by blast
  from assms a split1_found [OF i(1)]
  have "parse_response c =
                (strip (replace (replace (take i c) ''<think>'' []) ''</think>'' []),
                 strip (replace (drop (i + length ''<answer>'') c) ''</answer>'' []))"
    by (simp add: parse_response_def Let_def)
  with i(2) show "\<exists>i. first_occurrence c ''<answer>'' i \<and>
              parse_response c =
                (strip (replace (replace (take i c) ''<think>'' []) ''</think>'' []),
                 strip (replace (drop (i + length ''<answer>'') c) ''</answer>'' []))" by blast
next
  assume "\<not> contains c ''<answer>''"
  with assms show "parse_response c = ([], c)" by (simp add: parse_response_def)
qed

theorem secondary_fallback_witness:
  "\<not> contains ''<think>ok</think><answer>tap(x=10,y=20)</answer>'' ''finish(message='' \<and>
   \<not> contains ''<think>ok</think><answer>tap(x=10,y=20)</answer>'' ''do(action='' \<and>
   contains ''<think>ok</think><answer>tap(x=10,y=20)</answer>'' ''<answer>'' \<and>
   parse_response ''<think>ok</think><answer>tap(x=10,y=20)</answer>''
     = (''ok'', ''tap(x=10,y=20)'') \<and>
   \<not> contains ''just talking, no action'' ''finish(message='' \<and>
   \<not> contains ''just talking, no action'' ''do(action='' \<and>
   \<not> contains ''just talking, no action'' ''<answer>'' \<and>
   parse_response ''just talking, no action'' = ([], ''just talking, no action'')"
proof -
  let ?c = "''<think>ok</think><answer>tap(x=10,y=20)</answer>''"
  let ?d = "''just talking, no action''"
  have a1: "\<not> contains ?c ''finish(message=''" by code_simp
  have a2: "\<not> contains ?c ''do(action=''" by code_simp
  have a3: "contains ?c ''<answer>''" by code_simp
  have b1: "\<not> contains ?d ''finish(message=''" by code_simp
  have b2: "\<not> contains ?d ''do(action=''" by code_simp
  have b3: "\<not> contains ?d ''<answer>''" by code_simp
  from secondary_fallback [OF a1 a2, THEN conjunct1, THEN mp, OF a3]
  obtain i where i: "first_occurrence ?c ''<answer>'' i"
    and p: "parse_response ?c =
             (strip (replace (replace (take i ?c) ''<think>'' []) ''</think>'' []),
              strip (replace (drop (i + length ''<answer>'') ?c) ''</answer>'' []))"
    by (elim exE conjE)
  have "first_occurrence ?c ''<answer>'' 17" by code_simp
  with i have "i = 17" by (rule first_occurrence_unique)
  moreover have
    "(strip (replace (replace (take 17 ?c) ''<think>'' []) ''</think>'' []),
      strip (replace (drop (17 + length ''<answer>'') ?c) ''</answer>'' []))
     = (''ok'', ''tap(x=10,y=20)'')"
    by code_simp
  ultimately have a4: "parse_response ?c = (''ok'', ''tap(x=10,y=20)'')"
    using p by (simp only:)
  note b4 = secondary_fallback [OF b1 b2, THEN conjunct2, THEN mp, OF b3]
  from a1 a2 a3 a4 b1 b2 b3 b4 show ?thesis by (intro conjI)
qed

text \<open>
  C6 (the reasoning sub-stream is authoritative). When the reasoning fragments of a
  stream, concatenated and trimmed, are not empty, \<^verbatim>\<open>request\<close> returns a response
  whose thinking is that text, whatever the content fragments are.
\<close>

theorem reasoning_overrides:
  assumes "strip (concat (reasoning_fragments chunks)) \<noteq> []"
  shows "\<exists>r. request chunks e = Inr r \<and>
              thinking r = strip (concat (reasoning_fragments chunks))"
proof -
  have "v_raw_reasoning (run_stream chunks) \<noteq> []"
  proof
    assume "v_raw_reasoning (run_stream chunks) = []"
    then have "concat (reasoning_fragments chunks) = []"
      by (simp add: run_stream_raw_reasoning reasoning_fragments_def)
    with assms show False by simp
  qed
  with run_stream_token_inv [of chunks]
  obtain t where "v_time_to_first_token (run_stream chunks) = Some t"
    by (auto simp add: token_inv_def)
  from request_Inr [OF this, of e] assms show ?thesis
    by (auto simp add: reasoning_fragments_def)
qed

theorem reasoning_overrides_witness:
  "strip (concat (reasoning_fragments reasoning_and_marker)) = ''plan the tap'' \<and>
   strip (concat (reasoning_fragments reasoning_and_marker)) \<noteq> [] \<and>
   (\<exists>r. request reasoning_and_marker 5 = Inr r \<and>
        thinking r = strip (concat (reasoning_fragments reasoning_and_marker)))"
proof -
  have v: "strip (concat (reasoning_fragments reasoning_and_marker)) = ''plan the tap''"
    by code_simp
  then have h: "strip (concat (reasoning_fragments reasoning_and_marker)) \<noteq> []"
    by simp
  from v h reasoning_overrides [OF h, where e = 5] show ?thesis by (intro conjI)
qed

section \<open>The claims about the transcription session\<close>

text \<open>
  C7 (shutdown is idempotent). After \<^verbatim>\<open>_stop_recognition\<close> the flag \<open>stopped\<close> is
  set, and no callback or signal clears it. Calling \<^verbatim>\<open>_stop_recognition\<close> any number
  of further times leaves the session, its effects included, as the first call left
  it: the service connection is stopped once and the metrics are emitted once. In the
  state left by any execution of \<^verbatim>\<open>transcribe_once\<close>, and after any further calls of
  the stop path, no stream handle has been closed twice and no device handle
  terminated twice.
\<close>

theorem stop_idempotent:
  "stopped (snd (stop_recognition out s)) \<and>
   (stopped s \<longrightarrow> stopped (run_events es s)) \<and>
   stop_many (out # outs) s = stop_many [out] s \<and>
   (transcribe_once sc h = Some (res, w) \<longrightarrow>
      distinct (closed_streams (effects (stop_many further w))) \<and>
      distinct (terminated_mics (effects (stop_many further w))))"
proof (intro conjI impI)
  show "stopped (snd (stop_recognition out s))" by (rule stop_recognition_stopped)
  show "stop_many (out # outs) s = stop_many [out] s" by (simp add: stop_many_Cons)
next
  assume "stopped s" then show "stopped (run_events es s)" by simp
next
  assume "transcribe_once sc h = Some (res, w)"
  then have "device_inv (stop_many further w)"
    by (intro device_inv_stop_many device_inv_transcribe_once)
  then show "distinct (closed_streams (effects (stop_many further w)))"
    and "distinct (terminated_mics (effects (stop_many further w)))"
    by (simp_all add: device_inv_def)
qed

theorem stop_idempotent_witness:
  "stopped (snd (stop_recognition ([Deliver OnClose], None) listening)) \<and>
   stopped (run_events [Deliver OnClose, Sigint]
              (snd (stop_recognition ([Deliver OnClose], None) listening))) \<and>
   transcribe_once closed_twice (HostHandler 0) \<noteq> None \<and>
   closed_streams (effects (snd (the (transcribe_once closed_twice (HostHandler 0))))) = [0] \<and>
   distinct (closed_streams (effects (stop_many [([Deliver OnClose], None)]
      (snd (the (transcribe_once closed_twice (HostHandler 0))))))) \<and>
   distinct (terminated_mics (effects (stop_many [([Deliver OnClose], None)]
      (snd (the (transcribe_once closed_twice (HostHandler 0)))))))"
proof -
  let ?s = "snd (stop_recognition ([Deliver OnClose], None) listening)"
  let ?run = "transcribe_once closed_twice (HostHandler 0)"
  note T = stop_idempotent [where out = "([Deliver OnClose], None)" and s = listening
      and es = "[Deliver OnClose, Sigint]" and sc = closed_twice and h = "HostHandler 0"
      and res = "fst (the ?run)" and w = "snd (the ?run)"
      and further = "[([Deliver OnClose], None)]"]
  have a: "stopped ?s" by (rule T [THEN conjunct1])
  have r: "?run \<noteq> None" by code_simp
  then have r': "?run = Some (fst (the ?run), snd (the ?run))" by simp
  have c: "closed_streams (effects (snd (the ?run))) = [0]" by code_simp
  note d = T [THEN conjunct2, THEN conjunct2, THEN conjunct2, THEN mp, OF r']
  have b: "stopped (run_events [Deliver OnClose, Sigint] ?s)"
    using stop_idempotent [where s = ?s and es = "[Deliver OnClose, Sigint]",
        THEN conjunct2, THEN conjunct1, THEN mp, OF a] .
  from a b r c d [THEN conjunct1] d [THEN conjunct2] show ?thesis by (intro conjI)
qed

text \<open>
  C8 (failures of a read or a send). The claim is that a read or send failure while a
  stop is pending ends the loop with no error. In \<open>read_fails_while_stopping\<close> SIGINT
  arrives during the read that then fails, and in \<open>send_fails_while_stopping\<close> it
  arrives during a send that fails with a message other than the service's
  \<^verbatim>\<open>stopped\<close>: in both, \<open>stopping\<close> is set and \<^verbatim>\<open>transcribe_once\<close> raises the
  failure.
\<close>

theorem benign_race_counterexample:
  "map_option (\<lambda>(r, w). (r, stopping w))
      (transcribe_once read_fails_while_stopping (HostHandler 0))
     = Some (Inl (Exception ''Stream closed''), True) \<and>
   map_option (\<lambda>(r, w). (r, stopping w))
      (transcribe_once send_fails_while_stopping (HostHandler 0))
     = Some (Inl (Exception ''Connection reset''), True)"
  by code_simp

text \<open>
  C8, amended. In a pass of the loop with the device open, for a failure other than
  \<^verbatim>\<open>KeyboardInterrupt\<close>: a failure of the read leaves the loop as an exception,
  whether or not a stop is pending; a failure of the send ends the loop with no
  exception when a stop is pending and the message of the failure contains
  \<^verbatim>\<open>stopped\<close> (in any case of letters), and leaves the loop as an exception
  otherwise. An exception that leaves the loop runs the stop path, and
  \<^verbatim>\<open>transcribe_once\<close> raises it, unless the stop path raises one of its own, which
  is raised in its place.
\<close>

theorem failures_of_read_and_send:
  assumes "\<not> stopping s" and "stream s = Some dev" and "e \<noteq> KeyboardInterrupt"
  shows
    "(read_error it = Some e \<longrightarrow>
        drive (it # rest) s = Some (Some e, after_read it s) \<and>
        fst (after_loop h out (Some e, after_read it s)) =
          Inl (case fst (stop_recognition out ((after_read it s)\<lparr> sigint := h \<rparr>)) of
                 Some e' \<Rightarrow> e' | None \<Rightarrow> e) \<and>
        stopped (snd (after_loop h out (Some e, after_read it s)))) \<and>
     (read_error it = None \<and> send_error it = Some e \<and>
      stopping (after_send it s) \<and> contains (lower (str_of e)) ''stopped'' \<longrightarrow>
        drive (it # rest) s = Some (None, after_send it s)) \<and>
     (read_error it = None \<and> send_error it = Some e \<and>
      \<not> (stopping (after_send it s) \<and> contains (lower (str_of e)) ''stopped'') \<longrightarrow>
        drive (it # rest) s = Some (Some e, after_send it s) \<and>
        fst (after_loop h out (Some e, after_send it s)) =
          Inl (case fst (stop_recognition out ((after_send it s)\<lparr> sigint := h \<rparr>)) of
                 Some e' \<Rightarrow> e' | None \<Rightarrow> e) \<and>
        stopped (snd (after_loop h out (Some e, after_send it s))))"
proof -
  from assms(3) have exc: "is_Exception e" by (cases e) simp_all
  have surf: "\<And>s'. fst (after_loop h out (Some e, s')) =
          Inl (case fst (stop_recognition out (s'\<lparr> sigint := h \<rparr>)) of
                 Some e' \<Rightarrow> e' | None \<Rightarrow> e)"
    using assms(3) by (simp add: after_loop_eq Let_def split: option.splits)
  show ?thesis
    using assms(1,2) exc surf
    by (simp add: body_def Let_def after_loop_stopped)
qed

theorem failures_of_read_and_send_witness:
  "\<not> stopping listening \<and> stream listening = Some 0 \<and>
   read_error failing_read = Some (Exception ''Stream closed'') \<and>
   stopping (after_read failing_read listening) \<and>
   drive [failing_read] listening
     = Some (Some (Exception ''Stream closed''), after_read failing_read listening) \<and>
   read_error benign_send = None \<and>
   send_error benign_send = Some (Exception ''Speech recognition has stopped.'') \<and>
   stopping (after_send benign_send listening) \<and>
   contains (lower (str_of (Exception ''Speech recognition has stopped.''))) ''stopped'' \<and>
   drive [benign_send] listening = Some (None, after_send benign_send listening) \<and>
   read_error failing_send = None \<and>
   send_error failing_send = Some (Exception ''Connection reset'') \<and>
   \<not> (stopping (after_send failing_send listening) \<and>
      contains (lower (str_of (Exception ''Connection reset''))) ''stopped'') \<and>
   drive [failing_send] listening
     = Some (Some (Exception ''Connection reset''), after_send failing_send listening)"
proof -
  have s1: "\<not> stopping listening" by code_simp
  have s2: "stream listening = Some 0" by code_simp
  have k1: "Exception ''Stream closed'' \<noteq> KeyboardInterrupt" by simp
  have k2: "Exception ''Speech recognition has stopped.'' \<noteq> KeyboardInterrupt" by simp
  have k3: "Exception ''Connection reset'' \<noteq> KeyboardInterrupt" by simp
  have r1: "read_error failing_read = Some (Exception ''Stream closed'')" by code_simp
  have r2: "stopping (after_read failing_read listening)" by code_simp
  have b1: "read_error benign_send = None" by code_simp
  have b2: "send_error benign_send = Some (Exception ''Speech recognition has stopped.'')"
    by code_simp
  have b3: "stopping (after_send benign_send listening)" by code_simp
  have b4: "contains (lower (str_of (Exception ''Speech recognition has stopped.''))) ''stopped''"
    by code_simp
  have f1: "read_error failing_send = None" by code_simp
  have f2: "send_error failing_send = Some (Exception ''Connection reset'')" by code_simp
  have f3: "\<not> (stopping (after_send failing_send listening) \<and>
      contains (lower (str_of (Exception ''Connection reset''))) ''stopped'')" by code_simp
  note A = failures_of_read_and_send [OF s1 s2 k1, where it = failing_read and rest = "[]",
      THEN conjunct1, THEN mp, OF r1, THEN conjunct1]
  note B = failures_of_read_and_send [OF s1 s2 k2, where it = benign_send and rest = "[]",
      THEN conjunct2, THEN conjunct1, THEN mp, OF conjI [OF b1 conjI [OF b2 conjI [OF b3 b4]]]]
  note C = failures_of_read_and_send [OF s1 s2 k3, where it = failing_send and rest = "[]",
      THEN conjunct2, THEN conjunct2, THEN mp, OF conjI [OF f1 conjI [OF f2 f3]],
      THEN conjunct1]
  from s1 s2 r1 r2 A b1 b2 b3 b4 B f1 f2 f3 C show ?thesis by (intro conjI)
qed

text \<open>
  C9 (the SIGINT handler is restored on every exit). \<^verbatim>\<open>transcribe_once\<close> installs
  its handler and calls \<^verbatim>\<open>recognition.start()\<close> before it enters the \<^verbatim>\<open>try\<close> block
  whose \<^verbatim>\<open>finally\<close> clause restores the handler. In \<open>start_fails\<close> the call raises,
  the exception leaves \<^verbatim>\<open>transcribe_once\<close>, and the session's handler is still
  installed where the host's was.
\<close>

theorem handler_left_installed_when_start_raises:
  "map_option (\<lambda>(r, w). (r, sigint w)) (transcribe_once start_fails (HostHandler 0))
     = Some (Inl (Exception ''Invalid input device''), SessionHandler)"
  by code_simp

text \<open>
  C10 (a recorded error discards the transcript). When the loop is left with the
  \<open>error\<close> field set, \<^verbatim>\<open>transcribe_once\<close> raises and returns no transcript, whatever
  sentences and partial text the session holds. When the loop was left without an
  exception, or by \<^verbatim>\<open>KeyboardInterrupt\<close>, and \<^verbatim>\<open>recognition.stop()\<close> does not raise,
  the exception is the \<^verbatim>\<open>RuntimeError\<close> that carries the recorded error.
\<close>

theorem recorded_error_raises:
  assumes "before_loop sc h = Inr s0"
    and "drive (iterations sc) s0 = Some (ex, s1)"
    and "error s1 \<noteq> None"
  shows "\<exists>e w. transcribe_once sc h = Some (Inl e, w) \<and>
           ((ex = None \<or> ex = Some KeyboardInterrupt) \<and> snd (stop_outcome sc) = None \<longrightarrow>
              (\<exists>m. error w = Some m \<and> e = RuntimeError (''ASR failed: '' @ m)))"
proof -
  let ?out = "stop_outcome sc"
  let ?s = "(if ex = Some KeyboardInterrupt then s1\<lparr> stopping := True \<rparr> else s1)\<lparr> sigint := h \<rparr>"
  let ?r = "stop_recognition ?out ?s"
  have "error_inv s0" using assms(1) by (rule error_inv_before_loop)
  then have "error_inv s1" using assms(2) by (rule error_inv_drive)
  then have t1: "truthy (error s1)" using assms(3) by (rule error_inv_truthy)
  have "error ?s = error s1" by simp
  with t1 have "truthy (error ?s)" by simp
  then have "truthy (error (snd ?r))" by (rule truthy_stop_recognition)
  from transcript_error [OF this] obtain m where
    m: "error (snd ?r) = Some m" "transcript (snd ?r) = Inl (RuntimeError (''ASR failed: '' @ m))"
    by blast
  have run: "transcribe_once sc h = Some (after_loop h ?out (ex, s1))"
    using assms(1,2) by (simp add: transcribe_once_def)
  show ?thesis
  proof (cases "fst ?r")
    case (Some e)
    with run have A: "transcribe_once sc h = Some (Inl e, snd ?r)"
      by (simp add: after_loop_eq Let_def)
    from Some have B: "snd ?out \<noteq> None"
      using stop_recognition_quiet [of ?out ?s] by auto
    show ?thesis
      by (rule exI [of _ e], rule exI [of _ "snd ?r"]) (simp add: A B)
  next
    case None
    show ?thesis
    proof (cases "ex = None \<or> ex = Some KeyboardInterrupt")
      case True
      with run None m(2)
      have A: "transcribe_once sc h = Some (Inl (RuntimeError (''ASR failed: '' @ m)), snd ?r)"
        by (auto simp add: after_loop_eq Let_def)
      show ?thesis
        by (rule exI [of _ "RuntimeError (''ASR failed: '' @ m)"], rule exI [of _ "snd ?r"])
           (simp add: A m(1))
    next
      case False
      then obtain e where e: "ex = Some e" "e \<noteq> KeyboardInterrupt" by auto
      with run None have A: "transcribe_once sc h = Some (Inl e, snd ?r)"
        by (simp add: after_loop_eq Let_def)
      show ?thesis
        by (rule exI [of _ e], rule exI [of _ "snd ?r"]) (simp add: A e)
    qed
  qed
qed

theorem recorded_error_raises_witness:
  "before_loop error_after_sentence (HostHandler 0)
     = Inr (projr (before_loop error_after_sentence (HostHandler 0))) \<and>
   drive (iterations error_after_sentence)
       (projr (before_loop error_after_sentence (HostHandler 0)))
     = Some (None, snd (the (drive (iterations error_after_sentence)
                          (projr (before_loop error_after_sentence (HostHandler 0)))))) \<and>
   sentences (snd (the (drive (iterations error_after_sentence)
       (projr (before_loop error_after_sentence (HostHandler 0)))))) = [''hello world''] \<and>
   error (snd (the (drive (iterations error_after_sentence)
       (projr (before_loop error_after_sentence (HostHandler 0)))))) \<noteq> None \<and>
   snd (stop_outcome error_after_sentence) = None \<and>
   (\<exists>e w. transcribe_once error_after_sentence (HostHandler 0) = Some (Inl e, w) \<and>
      (\<exists>m. error w = Some m \<and> e = RuntimeError (''ASR failed: '' @ m)))"
proof -
  let ?s0 = "projr (before_loop error_after_sentence (HostHandler 0))"
  let ?s1 = "snd (the (drive (iterations error_after_sentence) ?s0))"
  have a: "before_loop error_after_sentence (HostHandler 0) = Inr ?s0" by code_simp
  have b: "drive (iterations error_after_sentence) ?s0 = Some (None, ?s1)" by code_simp
  have c: "sentences ?s1 = [''hello world'']" by code_simp
  have d: "error ?s1 \<noteq> None" by code_simp
  have e: "snd (stop_outcome error_after_sentence) = None" by code_simp
  have g: "\<exists>x w. transcribe_once error_after_sentence (HostHandler 0) = Some (Inl x, w) \<and>
           (((None :: exn option) = None \<or> None = Some KeyboardInterrupt) \<and>
            snd (stop_outcome error_after_sentence) = None \<longrightarrow>
              (\<exists>m. error w = Some m \<and> x = RuntimeError (''ASR failed: '' @ m)))"
    by (rule recorded_error_raises [OF a b d])
  have f: "\<exists>e w. transcribe_once error_after_sentence (HostHandler 0) = Some (Inl e, w) \<and>
      (\<exists>m. error w = Some m \<and> e = RuntimeError (''ASR failed: '' @ m))"
    using g e by simp
  from a b c d e f show ?thesis by (intro conjI)
qed

end
